theory Spec2Isabelle
  imports Main "HOL-Library.Word"
begin

section \<open>The model\<close>

subsection \<open>Memory.hpp: array allocation helpers\<close>

text \<open>
  The kernel extension is built for 64-bit macOS (LP64): \<open>uint32_t\<close> is a 32-bit
  word, \<open>size_t\<close> a 64-bit word, and a pointer is a 64-bit address. In
  \<open>arrayLength * sizeof(T)\<close> the 32-bit operand is converted to \<open>size_t\<close> by the usual
  arithmetic conversions and the product is taken in \<open>size_t\<close>, that is modulo \<open>2 ^ 64\<close>.
\<close>

type_synonym uint32_t = "32 word"
type_synonym size_t = "64 word"
type_synonym ptr = "64 word"

definition UINT32_MAX :: uint32_t where
  "UINT32_MAX = 0xFFFFFFFF"

definition nullptr :: ptr where
  "nullptr = 0"

text \<open>
  \<open>Memory_Alloc\<close> and \<open>Memory_Free\<close> are only declared in the header
  (\<open>void* Memory_Alloc(uint32_t size)\<close>, \<open>void Memory_Free(void* buffer, uint32_t size)\<close>).
  They are parameters of the model: functions on an allocator state \<open>'s\<close> of any type.
  The template parameter \<open>T\<close> enters the code only through \<open>sizeof(T)\<close>, a \<open>size_t\<close>;
  \<open>static_cast<T*>\<close> does not change the address.

  \<^verbatim>\<open>
  template <typename T>
  T* Memory_AllocArray(uint32_t arrayLength)
  {
      size_t allocBytes = arrayLength * sizeof(T);
      if (allocBytes > UINT32_MAX)
      {
          return nullptr;
      }
      return static_cast<T*>(Memory_Alloc(static_cast<uint32_t>(allocBytes)));
  }
  \<close>
\<close>

definition Memory_AllocArray ::
  "(uint32_t \<Rightarrow> 's \<Rightarrow> ptr \<times> 's) \<Rightarrow> size_t \<Rightarrow> uint32_t \<Rightarrow> 's \<Rightarrow> ptr \<times> 's" where
  "Memory_AllocArray Memory_Alloc sizeof_T arrayLength s =
     (let allocBytes = (ucast arrayLength :: size_t) * sizeof_T
      in if allocBytes > (ucast UINT32_MAX :: size_t)
         then (nullptr, s)
         else Memory_Alloc (ucast allocBytes :: uint32_t) s)"

text \<open>
  \<open>assert\<close> is the macro of the kernel's header \<open><kern/assert.h>\<close>, which the file
  includes. Whether it checks anything is decided when the extension is built, and the
  build configuration is a parameter of the model: where assertions are compiled in
  (\<open>MACH_ASSERT\<close>, the debug configuration) a false condition panics; otherwise (the
  release configuration) the macro expands to nothing and execution goes on.
\<close>

datatype build = Debug | Release

datatype panic = AssertionFailed

definition kern_assert :: "build \<Rightarrow> bool \<Rightarrow> panic + unit" where
  "kern_assert b ex = (if b = Debug \<and> \<not> ex then Inl AssertionFailed else Inr ())"

text \<open>
  \<^verbatim>\<open>
  template <typename T>
  void Memory_FreeArray(T* array, uint32_t arrayLength)
  {
      size_t arrayBytes = arrayLength * sizeof(T);
      assert(arrayBytes <= UINT32_MAX);
      Memory_Free(array, static_cast<uint32_t>(arrayBytes));
  }
  \<close>
\<close>

definition Memory_FreeArray ::
  "build \<Rightarrow> (ptr \<Rightarrow> uint32_t \<Rightarrow> 's \<Rightarrow> 's) \<Rightarrow> size_t \<Rightarrow> ptr \<Rightarrow> uint32_t \<Rightarrow> 's \<Rightarrow> panic + 's" where
  "Memory_FreeArray b Memory_Free sizeof_T array arrayLength s =
     (let arrayBytes = (ucast arrayLength :: size_t) * sizeof_T
      in case kern_assert b (arrayBytes \<le> (ucast UINT32_MAX :: size_t)) of
           Inl p \<Rightarrow> Inl p
         | Inr _ \<Rightarrow> Inr (Memory_Free array (ucast arrayBytes :: uint32_t) s))"

text \<open>
  An instrumented allocator for concrete runs: its state is the log of the calls it has
  received, so that a call to \<open>Memory_Alloc\<close> or \<open>Memory_Free\<close>, and the size passed,
  can be observed. Every allocation is answered with the same non-null address.
\<close>

datatype allocator_call = Alloc_call uint32_t | Free_call ptr uint32_t

definition logging_Alloc :: "uint32_t \<Rightarrow> allocator_call list \<Rightarrow> ptr \<times> allocator_call list" where
  "logging_Alloc sz log = (0x1000, log @ [Alloc_call sz])"

definition logging_Free :: "ptr \<Rightarrow> uint32_t \<Rightarrow> allocator_call list \<Rightarrow> allocator_call list" where
  "logging_Free buffer sz log = log @ [Free_call buffer sz]"

subsection \<open>PrjFSProviderUserClient.hpp: the provider channel\<close>

text \<open>
  The header declares the class and its operations (\<open>kernelMessageResponse\<close>,
  \<open>clientClose\<close>, \<open>cleanupProviderRegistration\<close>, \<open>sendMessage\<close>); their bodies are
  not among the sources. From the header come the types: a message identifier is a
  \<open>uint64_t\<close> (\<open>kernelMessageResponse(uint64_t messageId, MessageType responseType)\<close>)
  and the owner is a \<open>pid_t\<close>. The rest follows the specification's data model.
\<close>

type_synonym message_id = "64 word"
type_synonym pid_t = int
type_synonym message = "8 word list"

datatype channel_state = Open | Closed

datatype failure = ProviderTimeout | ProviderDisconnected

text \<open>What a blocked caller is woken with: the provider's answer, or a failure.\<close>

datatype 'r outcome = Answered 'r | Failed failure

text \<open>One wake-up: the request, the caller that waited for it, and what it is given.\<close>

datatype ('w, 'r) wake =
  Wake (wake_id: message_id) (wake_caller: 'w) (wake_outcome: "'r outcome")

text \<open>
  Modelled from the spec: the channel of the specification's data model. Of its fields
  the class in the header declares the owner (\<open>pid\<close>), the queue (\<open>dataQueue\<close>) and the
  write lock (\<open>dataQueueWriterMutex\<close>); the table of pending requests and the message
  counter are kept by code that is not among the sources. \<open>pendingRequests\<close> maps a
  message identifier to the wait handle \<open>'w\<close> of the blocked caller; it is an
  association list, so that closing can walk through it. The write lock is left out:
  every operation of the model is one atomic step.
\<close>

record 'w ProviderChannel =
  identity :: pid_t
  outboundQueue :: "message list"
  pendingRequests :: "(message_id \<times> 'w) list"
  nextMessageId :: message_id
  state :: channel_state

text \<open>
  Modelled from the spec: the body of \<open>kernelMessageResponse\<close>, which is missing.
  "Looks up and removes the pending entry for \<open>id\<close> and wakes exactly the one blocked
  caller with \<open>result\<close>. Unknown/already-resolved ids are ignored." The function returns
  the new channel and the wake-ups it performs.
\<close>

definition deliverResponse ::
  "'w ProviderChannel \<Rightarrow> message_id \<Rightarrow> 'r \<Rightarrow> 'w ProviderChannel \<times> ('w, 'r) wake list" where
  "deliverResponse ch messageId result =
     (case map_of (pendingRequests ch) messageId of
        None \<Rightarrow> (ch, [])
      | Some caller \<Rightarrow>
          (ch\<lparr>pendingRequests :=
                filter (\<lambda>entry. fst entry \<noteq> messageId) (pendingRequests ch)\<rparr>,
           [Wake messageId caller (Answered result)]))"

text \<open>
  Modelled from the spec: the loop of \<open>close\<close> that "drains \<open>pendingRequests\<close>,
  resolving each with a \<open>ProviderDisconnected\<close> failure"; the bodies of \<open>clientClose\<close>
  and \<open>cleanupProviderRegistration\<close> are missing.
\<close>

fun drain :: "(message_id \<times> 'w) list \<Rightarrow> ('w, 'r) wake list" where
  "drain [] = []"
| "drain ((messageId, caller) # rest) =
     Wake messageId caller (Failed ProviderDisconnected) # drain rest"

text \<open>
  Modelled from the spec: \<open>close\<close>, for the missing bodies of \<open>clientClose\<close> and
  \<open>cleanupProviderRegistration\<close>. It "transitions state to \<open>Closed\<close>; drains
  \<open>pendingRequests\<close> [...], then releases the queue and all buffered messages".
\<close>

definition close :: "'w ProviderChannel \<Rightarrow> 'w ProviderChannel \<times> ('w, 'r) wake list" where
  "close ch =
     (ch\<lparr>state := Closed, pendingRequests := [], outboundQueue := []\<rparr>,
      drain (pendingRequests ch))"

text \<open>The callers that are blocked on a channel: those with an entry in \<open>pendingRequests\<close>.\<close>

definition blocked_callers :: "'w ProviderChannel \<Rightarrow> 'w set" where
  "blocked_callers ch = snd ` set (pendingRequests ch)"

subsection \<open>The root registry\<close>

text \<open>
  The registry lives in \<open>VirtualizationRoots.hpp\<close> and its implementation, which the
  header above includes and which are not among the sources.
\<close>

datatype registry_failure = InvalidPath | AlreadyRegistered | NotFound

type_synonym VirtualizationRootHandle = nat

text \<open>
  Modelled from the spec: a registered root with its \<open>handle\<close>, its \<open>rootPath\<close> and the
  reference to its provider channel (the channel's identity); the registry is the table
  of the roots registered at the moment.
\<close>

record VirtualizationRoot =
  handle :: VirtualizationRootHandle
  rootPath :: string
  providerChannel :: pid_t

type_synonym registry = "VirtualizationRoot list"

text \<open>
  Modelled from the spec: a path cut at its separators. \<open>/a/b\<close> gives an empty first
  component and the names \<open>a\<close> and \<open>b\<close>; a doubled or trailing separator gives an
  empty name.
\<close>

fun path_components :: "string \<Rightarrow> string list" where
  "path_components [] = [[]]"
| "path_components (c # cs) =
     (if c = CHR ''/'' then [] # path_components cs
      else (case path_components cs of
              [] \<Rightarrow> [[c]]
            | name # names \<Rightarrow> (c # name) # names))"

text \<open>
  Modelled from the spec: the paths \<open>register\<close> accepts; the others are the "malformed"
  and "relative" ones it rejects as \<open>InvalidPath\<close>. A root path is absolute, names a
  directory below \<open>/\<close>, and has no empty, \<open>.\<close> or \<open>..\<close> component, so that one
  directory has one spelling (\<open>/a/b/\<close> and \<open>/a//b\<close> are not accepted beside \<open>/a/b\<close>).
\<close>

definition well_formed :: "string \<Rightarrow> bool" where
  "well_formed path =
     (case path_components path of
        [] \<Rightarrow> False
      | first # names \<Rightarrow>
          first = [] \<and> names \<noteq> []
          \<and> (\<forall>name \<in> set names. name \<noteq> [] \<and> name \<noteq> ''.'' \<and> name \<noteq> ''..''))"

text \<open>
  Modelled from the spec: a root contains a path when the root's path is a prefix of it
  that ends at a component boundary ("path-component-aligned - a registered root
  \<open>/a/b\<close> must match \<open>/a/b/c\<close> but not \<open>/a/bc\<close>"): the path ends there or goes on
  with a separator.
\<close>

definition path_contains :: "string \<Rightarrow> string \<Rightarrow> bool" where
  "path_contains root path =
     (take (length root) path = root
      \<and> (length path = length root \<or> path ! length root = CHR ''/''))"

text \<open>
  Modelled from the spec: the scan of \<open>lookup\<close> over the table, keeping the most
  specific (longest) root found so far that contains the path.
\<close>

fun most_specific ::
  "string \<Rightarrow> registry \<Rightarrow> VirtualizationRoot option \<Rightarrow> VirtualizationRoot option" where
  "most_specific path [] best = best"
| "most_specific path (r # rs) best =
     (if path_contains (rootPath r) path
         \<and> (case best of None \<Rightarrow> True | Some b \<Rightarrow> length (rootPath b) < length (rootPath r))
      then most_specific path rs (Some r)
      else most_specific path rs best)"

text \<open>
  Modelled from the spec: \<open>lookup(path) -> handle | NotFound\<close>, which "finds the most
  specific (longest-prefix, path-component-aligned [...]) registered root containing
  \<open>path\<close>".
\<close>

definition lookup :: "registry \<Rightarrow> string \<Rightarrow> registry_failure + VirtualizationRootHandle" where
  "lookup reg path =
     (case most_specific path reg None of
        None \<Rightarrow> Inl NotFound
      | Some r \<Rightarrow> Inr (handle r))"

text \<open>
  Modelled from the spec: the handle given to a new root, a small integer that no
  registered root uses ("unique while the root is registered [...] slots are reused").
\<close>

definition unused_handle :: "registry \<Rightarrow> VirtualizationRootHandle" where
  "unused_handle reg =
     (case find (\<lambda>h. h \<notin> set (map handle reg)) [0..<length reg] of
        Some h \<Rightarrow> h
      | None \<Rightarrow> length reg)"

text \<open>
  Modelled from the spec: \<open>register(path, providerChannel)\<close>. The spec asks for one
  nesting policy, kept by \<open>register\<close> and \<open>lookup\<close> alike; the model takes "no nested
  roots": a path is rejected as \<open>AlreadyRegistered\<close> when a registered root contains it
  ("a path equal to or nesting inside an already-registered root") and also when it
  contains a registered root. A path that is not well formed is rejected as
  \<open>InvalidPath\<close>. Otherwise \<open>register\<close> "allocates a handle, binds it to the path and
  channel"; a failure changes nothing.
\<close>

definition register ::
  "registry \<Rightarrow> string \<Rightarrow> pid_t \<Rightarrow> registry_failure + (VirtualizationRootHandle \<times> registry)" where
  "register reg path channel =
     (if \<not> well_formed path then Inl InvalidPath
      else if \<exists>r \<in> set reg. path_contains (rootPath r) path \<or> path_contains path (rootPath r)
        then Inl AlreadyRegistered
      else let h = unused_handle reg
           in Inr (h, reg @ [\<lparr>handle = h, rootPath = path, providerChannel = channel\<rparr>]))"

section \<open>Properties of the array allocation helpers\<close>

subsection \<open>Arithmetic of the byte count\<close>

lemma unat_UINT32_MAX: "unat UINT32_MAX = 2 ^ 32 - 1"
  by (simp add: UINT32_MAX_def)

lemma unat_ucast_32_64: "unat (ucast (w :: uint32_t) :: size_t) = unat w"
proof -
  have "unat w < 2 ^ 32"
    using unsigned_less [of w] by simp
  then have "unat w < 2 ^ 64"
    by simp
  then show ?thesis
    by (simp add: unsigned_ucast_eq take_bit_nat_eq_self)
qed

lemma unat_ucast_64_32: "unat (ucast (w :: size_t) :: uint32_t) = unat w mod 2 ^ 32"
  by (simp add: unsigned_ucast_eq take_bit_eq_mod)

text \<open>The value of \<open>arrayLength * sizeof(T)\<close> as the code computes it, in \<open>size_t\<close>.\<close>

lemma unat_byte_count:
  "unat ((ucast (arrayLength :: uint32_t) :: size_t) * sizeof_T)
     = (unat arrayLength * unat sizeof_T) mod 2 ^ 64"
  by (simp add: unat_word_ariths unat_ucast_32_64)

lemma byte_count_exceeds_iff:
  "((ucast UINT32_MAX :: size_t) < (ucast (arrayLength :: uint32_t) :: size_t) * sizeof_T)
     = (unat UINT32_MAX < (unat arrayLength * unat sizeof_T) mod 2 ^ 64)"
  by (simp add: word_less_nat_alt unat_byte_count unat_ucast_32_64)

text \<open>The 32-bit value handed on by \<open>static_cast<uint32_t>\<close>: the product modulo \<open>2 ^ 32\<close>.\<close>

lemma truncated_byte_count:
  "(ucast ((ucast (arrayLength :: uint32_t) :: size_t) * sizeof_T) :: uint32_t)
     = word_of_nat (unat arrayLength * unat sizeof_T)"
proof -
  have "(unat arrayLength * unat sizeof_T) mod 2 ^ 64 mod 2 ^ 32
          = (unat arrayLength * unat sizeof_T) mod 2 ^ 32"
    by (simp add: mod_mod_cancel)
  then have "unat (ucast ((ucast arrayLength :: size_t) * sizeof_T) :: uint32_t)
          = unat (word_of_nat (unat arrayLength * unat sizeof_T) :: uint32_t)"
    unfolding unat_ucast_64_32 unat_byte_count unat_of_nat by simp
  then show ?thesis
    by (simp only: word_unat_eq_iff)
qed

lemma byte_count_fits:
  assumes "unat arrayLength * unat sizeof_T \<le> unat UINT32_MAX"
  shows "(ucast (arrayLength :: uint32_t) :: size_t) * sizeof_T \<le> ucast UINT32_MAX"
    and "unat (word_of_nat (unat arrayLength * unat sizeof_T) :: uint32_t)
           = unat arrayLength * unat sizeof_T"
proof -
  let ?n = "unat arrayLength * unat sizeof_T"
  from assms have small: "?n < 2 ^ 32"
    by (simp add: UINT32_MAX_def)
  then have "?n < 2 ^ 64"
    by simp
  then have "unat ((ucast arrayLength :: size_t) * sizeof_T) = ?n"
    by (simp add: unat_byte_count)
  with assms show "(ucast arrayLength :: size_t) * sizeof_T \<le> ucast UINT32_MAX"
    by (simp add: word_le_nat_alt unat_ucast_32_64)
  show "unat (word_of_nat ?n :: uint32_t) = ?n"
    unfolding unat_of_nat using small by simp
qed

text \<open>
  For an element of at most \<open>2 ^ 32\<close> bytes the product cannot reach \<open>2 ^ 64\<close>, so the
  value the code computes is the true product.
\<close>

lemma byte_count_exact:
  assumes "unat sizeof_T \<le> 2 ^ 32"
  shows "(unat (arrayLength :: uint32_t) * unat (sizeof_T :: size_t)) mod 2 ^ 64
           = unat arrayLength * unat sizeof_T"
proof -
  have "unat arrayLength < 2 ^ 32"
    using unsigned_less [of arrayLength] by simp
  then have "unat arrayLength * unat sizeof_T \<le> (2 ^ 32 - 1) * 2 ^ 32"
    using assms by (intro mult_le_mono) simp_all
  also have "\<dots> < (2 :: nat) ^ 64"
    by simp
  finally show ?thesis
    by simp
qed

subsection \<open>Overflowing allocation requests\<close>

text \<open>
  For every element type of at most 4 GiB the check does what it is there for: a request
  whose byte count \<open>arrayLength * sizeof(T)\<close> exceeds \<open>UINT32_MAX\<close> returns
  \<open>nullptr\<close> and leaves the allocator state as it was, whatever \<open>Memory_Alloc\<close> is:
  \<open>Memory_Alloc\<close> is not called.
\<close>

lemma Memory_AllocArray_overflow_below_4GiB:
  assumes "unat sizeof_T \<le> 2 ^ 32"
    and "unat UINT32_MAX < unat arrayLength * unat sizeof_T"
  shows "Memory_AllocArray Memory_Alloc sizeof_T arrayLength s = (nullptr, s)"
proof -
  from assms
  have "(ucast UINT32_MAX :: size_t) < (ucast arrayLength :: size_t) * sizeof_T"
    by (simp only: byte_count_exceeds_iff byte_count_exact)
  then show ?thesis
    by (simp add: Memory_AllocArray_def Let_def)
qed

text \<open>
  C1 asks that every request whose byte count \<open>arrayLength * sizeof(T)\<close> exceeds
  \<open>UINT32_MAX\<close> return \<open>nullptr\<close> without a call to \<open>Memory_Alloc\<close>, for every element
  type. The code misses the requests whose product no longer fits \<open>size_t\<close>: for an
  element of \<open>2 ^ 33\<close> bytes and \<open>2 ^ 31\<close> elements the byte count is \<open>2 ^ 64\<close>, the
  code computes \<open>allocBytes = 0\<close>, the check \<open>allocBytes > UINT32_MAX\<close> passes, and
  \<open>Memory_Alloc(0)\<close> is called and its result returned as an array of \<open>2 ^ 31\<close>
  elements.
\<close>

theorem Memory_AllocArray_wrapped_product_allocates:
  "unat UINT32_MAX < unat (0x80000000 :: uint32_t) * unat (0x200000000 :: size_t)
   \<and> Memory_AllocArray logging_Alloc 0x200000000 0x80000000 [] = (0x1000, [Alloc_call 0])
   \<and> Memory_AllocArray logging_Alloc 0x200000000 0x80000000 [] \<noteq> (nullptr, [])"
  by (simp add: Memory_AllocArray_def UINT32_MAX_def logging_Alloc_def nullptr_def)

subsection \<open>Freeing with an oversized byte count\<close>

text \<open>
  C2, as the specification states it: a \<open>Memory_FreeArray\<close> call whose byte size does
  not fit 32 bits is caught in debug builds and not masked in release builds. In a
  release build the assertion is compiled out: for \<open>2 ^ 29\<close> elements of 8 bytes
  (\<open>2 ^ 32\<close> bytes) the call goes through and \<open>Memory_Free\<close> is handed the size
  truncated to 32 bits, here 0, with no failure reported.
\<close>

theorem Memory_FreeArray_release_masks_oversize:
  "unat UINT32_MAX < unat (0x20000000 :: uint32_t) * unat (8 :: size_t)
   \<and> Memory_FreeArray Release logging_Free 8 0x1000 0x20000000 [] = Inr [Free_call 0x1000 0]"
  by (simp add: Memory_FreeArray_def kern_assert_def UINT32_MAX_def logging_Free_def)

text \<open>
  C2, amended: when the byte size \<open>arrayLength * sizeof(T)\<close>, taken in 64-bit \<open>size_t\<close>
  arithmetic as the code does, exceeds \<open>UINT32_MAX\<close>, then in a debug build
  \<open>Memory_FreeArray\<close> stops at the failed assertion and \<open>Memory_Free\<close> is not called;
  in a release build the assertion is absent and \<open>Memory_Free\<close> is called with the byte
  size truncated to 32 bits.
\<close>

theorem Memory_FreeArray_oversize:
  assumes "unat UINT32_MAX < (unat arrayLength * unat sizeof_T) mod 2 ^ 64"
  shows "Memory_FreeArray Debug Memory_Free sizeof_T array arrayLength s = Inl AssertionFailed
       \<and> Memory_FreeArray Release Memory_Free sizeof_T array arrayLength s
           = Inr (Memory_Free array (word_of_nat (unat arrayLength * unat sizeof_T)) s)"
proof -
  from assms
  have "(ucast UINT32_MAX :: size_t) < (ucast arrayLength :: size_t) * sizeof_T"
    by (simp only: byte_count_exceeds_iff)
  then have "\<not> (ucast arrayLength :: size_t) * sizeof_T \<le> ucast UINT32_MAX"
    by (simp add: not_le)
  then show ?thesis
    by (simp add: Memory_FreeArray_def kern_assert_def Let_def truncated_byte_count)
qed

text \<open>
  Witness for C2: \<open>2 ^ 28 + 1\<close> elements of 16 bytes are \<open>2 ^ 32 + 16\<close> bytes; the
  debug build panics, the release build frees 16 bytes.
\<close>

theorem Memory_FreeArray_oversize_witness:
  "unat UINT32_MAX < (unat (0x10000001 :: uint32_t) * unat (16 :: size_t)) mod 2 ^ 64
   \<and> Memory_FreeArray Debug logging_Free 16 0x1000 0x10000001 [] = Inl AssertionFailed
   \<and> Memory_FreeArray Release logging_Free 16 0x1000 0x10000001 [] = Inr [Free_call 0x1000 16]"
  using Memory_FreeArray_oversize [of "0x10000001" 16 logging_Free "0x1000" "[]"]
  by (simp add: UINT32_MAX_def logging_Free_def)

subsection \<open>Allocation and release pass the same size\<close>

text \<open>
  C8: for every element size and every \<open>arrayLength\<close> with
  \<open>arrayLength * sizeof(T) \<le> UINT32_MAX\<close>, \<open>Memory_AllocArray\<close> calls \<open>Memory_Alloc\<close>
  and \<open>Memory_FreeArray\<close> calls \<open>Memory_Free\<close> (in either build) with one and the same
  32-bit size, and that size is the product itself.
\<close>

theorem Memory_FreeArray_matches_AllocArray:
  assumes "unat arrayLength * unat sizeof_T \<le> unat UINT32_MAX"
  shows "Memory_AllocArray Memory_Alloc sizeof_T arrayLength s
           = Memory_Alloc (word_of_nat (unat arrayLength * unat sizeof_T)) s
       \<and> Memory_FreeArray b Memory_Free sizeof_T array arrayLength s'
           = Inr (Memory_Free array (word_of_nat (unat arrayLength * unat sizeof_T)) s')
       \<and> unat (word_of_nat (unat arrayLength * unat sizeof_T) :: uint32_t)
           = unat arrayLength * unat sizeof_T"
proof -
  note fits = byte_count_fits [OF assms]
  from fits(1) have "\<not> (ucast UINT32_MAX :: size_t) < (ucast arrayLength :: size_t) * sizeof_T"
    by (simp add: not_less)
  then have alloc: "Memory_AllocArray Memory_Alloc sizeof_T arrayLength s
      = Memory_Alloc (word_of_nat (unat arrayLength * unat sizeof_T)) s"
    by (simp add: Memory_AllocArray_def Let_def truncated_byte_count)
  from fits(1) have free: "Memory_FreeArray b Memory_Free sizeof_T array arrayLength s'
      = Inr (Memory_Free array (word_of_nat (unat arrayLength * unat sizeof_T)) s')"
    by (simp add: Memory_FreeArray_def kern_assert_def Let_def truncated_byte_count)
  from alloc free fits(2) show ?thesis
    by (simp only: simp_thms)
qed

text \<open>
  Witness for C8: three elements of 24 bytes; the log shows 72 bytes allocated and 72
  bytes freed, in a debug build.
\<close>

theorem Memory_FreeArray_matches_AllocArray_witness:
  "unat (3 :: uint32_t) * unat (24 :: size_t) \<le> unat UINT32_MAX
   \<and> Memory_AllocArray logging_Alloc 24 3 [] = (0x1000, [Alloc_call 72])
   \<and> Memory_FreeArray Debug logging_Free 24 0x1000 3 [Alloc_call 72]
       = Inr [Alloc_call 72, Free_call 0x1000 72]"
  using Memory_FreeArray_matches_AllocArray
    [of 3 24 logging_Alloc "[]" Debug logging_Free "0x1000" "[Alloc_call 72]"]
  by (simp add: UINT32_MAX_def logging_Alloc_def logging_Free_def)

subsection \<open>The empty array\<close>

text \<open>
  C9: for \<open>arrayLength = 0\<close> and every element size, \<open>Memory_AllocArray\<close> computes a
  byte size of 0, passes the overflow check and returns the result of
  \<open>Memory_Alloc(0)\<close> unchanged.
\<close>

theorem Memory_AllocArray_zero_length:
  "(ucast (0 :: uint32_t) :: size_t) * sizeof_T = 0
   \<and> \<not> (ucast (0 :: uint32_t) :: size_t) * sizeof_T > ucast UINT32_MAX
   \<and> Memory_AllocArray Memory_Alloc sizeof_T 0 s = Memory_Alloc 0 s"
proof -
  have bytes: "(ucast (0 :: uint32_t) :: size_t) * sizeof_T = 0"
    by simp
  then have passes: "\<not> (ucast (0 :: uint32_t) :: size_t) * sizeof_T > ucast UINT32_MAX"
    by simp
  then have "Memory_AllocArray Memory_Alloc sizeof_T 0 s = Memory_Alloc 0 s"
    by (simp add: Memory_AllocArray_def)
  with bytes passes show ?thesis
    by (intro conjI)
qed

section \<open>Properties of the provider channel\<close>

subsection \<open>Delivering a response\<close>

lemma map_of_filter_other:
  "map_of (filter (\<lambda>entry. fst entry \<noteq> k) xs) j = (if j = k then None else map_of xs j)"
  by (induction xs) auto

text \<open>
  C3: a response for an identifier that is not pending (unknown, already resolved,
  duplicate or late) is a no-op: the call returns, the channel is unchanged and nobody is
  woken. A response for a pending identifier wakes the one caller recorded for it, once,
  with the provider's result, and removes the entry: the identifier is no longer
  pending, every other entry and every other field of the channel is as before, and a
  second response for the same identifier is a no-op.
\<close>

theorem deliverResponse_pending_or_not:
  "(map_of (pendingRequests ch) messageId = None \<longrightarrow>
      deliverResponse ch messageId result = (ch, []))
   \<and> (map_of (pendingRequests ch) messageId = Some caller \<longrightarrow>
        (\<exists>ch'. deliverResponse ch messageId result
                 = (ch', [Wake messageId caller (Answered result)])
           \<and> map_of (pendingRequests ch') messageId = None
           \<and> (\<forall>j. j \<noteq> messageId \<longrightarrow>
                 map_of (pendingRequests ch') j = map_of (pendingRequests ch) j)
           \<and> ch' = ch\<lparr>pendingRequests := pendingRequests ch'\<rparr>
           \<and> deliverResponse ch' messageId result' = (ch', ([] :: ('w, 'r) wake list))))"
proof (intro conjI impI)
  assume "map_of (pendingRequests ch) messageId = None"
  then show "deliverResponse ch messageId result = (ch, [])"
    by (simp add: deliverResponse_def)
next
  assume pending: "map_of (pendingRequests ch) messageId = Some caller"
  let ?rest = "filter (\<lambda>entry. fst entry \<noteq> messageId) (pendingRequests ch)"
  let ?ch' = "ch\<lparr>pendingRequests := ?rest\<rparr>"
  from pending
  have step: "deliverResponse ch messageId result
      = (?ch', [Wake messageId caller (Answered result)])"
    by (simp add: deliverResponse_def)
  have gone: "map_of (pendingRequests ?ch') messageId = None"
    by (simp add: map_of_filter_other)
  have others: "\<forall>j. j \<noteq> messageId \<longrightarrow>
      map_of (pendingRequests ?ch') j = map_of (pendingRequests ch) j"
    by (simp add: map_of_filter_other)
  have frame: "?ch' = ch\<lparr>pendingRequests := pendingRequests ?ch'\<rparr>"
    by simp
  from gone
  have again: "deliverResponse ?ch' messageId result' = (?ch', ([] :: ('w, 'r) wake list))"
    by (simp add: deliverResponse_def)
  from step gone others frame again
  show "\<exists>ch'. deliverResponse ch messageId result
                 = (ch', [Wake messageId caller (Answered result)])
           \<and> map_of (pendingRequests ch') messageId = None
           \<and> (\<forall>j. j \<noteq> messageId \<longrightarrow>
                 map_of (pendingRequests ch') j = map_of (pendingRequests ch) j)
           \<and> ch' = ch\<lparr>pendingRequests := pendingRequests ch'\<rparr>
           \<and> deliverResponse ch' messageId result' = (ch', ([] :: ('w, 'r) wake list))"
    by blast
qed

text \<open>
  Witness for C3: a channel of process 312 with requests 7 and 9 pending for the callers
  41 and 42. A response for 8 changes nothing; a response for 9 wakes caller 42 and
  leaves request 7 pending; a second response for 9 changes nothing.
\<close>

theorem deliverResponse_pending_or_not_witness:
  "map_of (pendingRequests \<lparr>identity = 312, outboundQueue = [[1, 7], [1, 9]],
        pendingRequests = [(7, 41 :: nat), (9, 42)], nextMessageId = 10, state = Open\<rparr>) 8
     = None
   \<and> deliverResponse \<lparr>identity = 312, outboundQueue = [[1, 7], [1, 9]],
        pendingRequests = [(7, 41 :: nat), (9, 42)], nextMessageId = 10, state = Open\<rparr> 8 True
     = (\<lparr>identity = 312, outboundQueue = [[1, 7], [1, 9]],
        pendingRequests = [(7, 41 :: nat), (9, 42)], nextMessageId = 10, state = Open\<rparr>, [])
   \<and> map_of (pendingRequests \<lparr>identity = 312, outboundQueue = [[1, 7], [1, 9]],
        pendingRequests = [(7, 41 :: nat), (9, 42)], nextMessageId = 10, state = Open\<rparr>) 9
     = Some 42
   \<and> deliverResponse \<lparr>identity = 312, outboundQueue = [[1, 7], [1, 9]],
        pendingRequests = [(7, 41 :: nat), (9, 42)], nextMessageId = 10, state = Open\<rparr> 9 True
     = (\<lparr>identity = 312, outboundQueue = [[1, 7], [1, 9]],
        pendingRequests = [(7, 41 :: nat)], nextMessageId = 10, state = Open\<rparr>,
        [Wake 9 42 (Answered True)])
   \<and> deliverResponse \<lparr>identity = 312, outboundQueue = [[1, 7], [1, 9]],
        pendingRequests = [(7, 41 :: nat)], nextMessageId = 10, state = Open\<rparr> 9 False
     = (\<lparr>identity = 312, outboundQueue = [[1, 7], [1, 9]],
        pendingRequests = [(7, 41 :: nat)], nextMessageId = 10, state = Open\<rparr>, [])"
  using
    deliverResponse_pending_or_not [of "\<lparr>identity = 312, outboundQueue = [[1, 7], [1, 9]],
        pendingRequests = [(7, 41 :: nat), (9, 42)], nextMessageId = 10, state = Open\<rparr>"
        8 True 0 False]
    deliverResponse_pending_or_not [of "\<lparr>identity = 312, outboundQueue = [[1, 7], [1, 9]],
        pendingRequests = [(7, 41 :: nat), (9, 42)], nextMessageId = 10, state = Open\<rparr>"
        9 True 42 False]
  by (simp add: deliverResponse_def)

subsection \<open>Closing a channel\<close>

lemma drain_length: "length (drain xs) = length xs"
  by (induction xs) auto

lemma drain_entries: "map (\<lambda>e. (wake_id e, wake_caller e)) (drain xs) = xs"
  by (induction xs) auto

lemma drain_outcome: "e \<in> set (drain xs) \<Longrightarrow> wake_outcome e = Failed ProviderDisconnected"
  by (induction xs) auto

lemma drain_filter_absent:
  "i \<notin> fst ` set xs \<Longrightarrow> filter (\<lambda>e. wake_id e = i) (drain xs) = []"
  by (induction xs) auto

lemma drain_exactly_once:
  "distinct (map fst xs) \<Longrightarrow> (i, w) \<in> set xs \<Longrightarrow>
     filter (\<lambda>e. wake_id e = i) (drain xs :: ('w, 'r) wake list)
       = [Wake i w (Failed ProviderDisconnected)]"
proof (induction xs)
  case Nil
  then show ?case by simp
next
  case (Cons x xs)
  obtain j v where x: "x = (j, v)" by (cases x)
  show ?case
  proof (cases "j = i")
    case True
    with Cons.prems x have fresh: "i \<notin> fst ` set xs" by simp
    then have absent: "filter (\<lambda>e. wake_id e = i) (drain xs :: ('w, 'r) wake list) = []"
      by (rule drain_filter_absent)
    from Cons.prems x True fresh have "v = w"
      by (auto simp: image_iff)
    with absent x True show ?thesis by simp
  next
    case False
    with Cons.prems x have "(i, w) \<in> set xs" and "distinct (map fst xs)" by auto
    then have "filter (\<lambda>e. wake_id e = i) (drain xs :: ('w, 'r) wake list)
        = [Wake i w (Failed ProviderDisconnected)]"
      by (rule Cons.IH [rotated])
    with x False show ?thesis by simp
  qed
qed

text \<open>
  C4: closing a channel with K pending requests leaves the channel \<open>Closed\<close> with
  \<open>pendingRequests\<close> empty and no caller blocked. It performs K wake-ups, one for each
  pending entry in turn, for the request and the caller of that entry, and every one
  carries the \<open>ProviderDisconnected\<close> failure. Where \<open>pendingRequests\<close> is a map (no
  identifier occurs twice), each pending request is therefore resolved exactly once.
  \<open>Closed\<close> is terminal: a late response or a second close on the closed channel
  changes nothing and wakes nobody.
\<close>

theorem close_resolves_every_pending_request:
  fixes ch :: "'w ProviderChannel" and result :: 'r
  defines "closed \<equiv> fst (close ch :: 'w ProviderChannel \<times> ('w, 'r) wake list)"
    and "wakes \<equiv> snd (close ch :: 'w ProviderChannel \<times> ('w, 'r) wake list)"
  shows "state closed = Closed
   \<and> pendingRequests closed = []
   \<and> blocked_callers closed = {}
   \<and> length wakes = length (pendingRequests ch)
   \<and> map (\<lambda>e. (wake_id e, wake_caller e)) wakes = pendingRequests ch
   \<and> (\<forall>e \<in> set wakes. wake_outcome e = Failed ProviderDisconnected)
   \<and> (distinct (map fst (pendingRequests ch)) \<longrightarrow>
        (\<forall>(i, w) \<in> set (pendingRequests ch).
            filter (\<lambda>e. wake_id e = i) wakes = [Wake i w (Failed ProviderDisconnected)]))
   \<and> deliverResponse closed messageId result = (closed, ([] :: ('w, 'r) wake list))
   \<and> close closed = (closed, ([] :: ('w, 'r) wake list))"
proof -
  have closed: "closed = ch\<lparr>state := Closed, pendingRequests := [], outboundQueue := []\<rparr>"
    and wakes: "wakes = drain (pendingRequests ch)"
    by (simp_all add: closed_def wakes_def close_def)
  have entries: "map (\<lambda>e. (wake_id e, wake_caller e)) wakes = pendingRequests ch"
    unfolding wakes by (rule drain_entries)
  have outcomes: "\<forall>e \<in> set wakes. wake_outcome e = Failed ProviderDisconnected"
    unfolding wakes by (blast dest: drain_outcome)
  have once: "distinct (map fst (pendingRequests ch)) \<longrightarrow>
      (\<forall>(i, w) \<in> set (pendingRequests ch).
          filter (\<lambda>e. wake_id e = i) wakes = [Wake i w (Failed ProviderDisconnected)])"
    unfolding wakes by (auto intro: drain_exactly_once)
  have late: "deliverResponse closed messageId result = (closed, ([] :: ('w, 'r) wake list))"
    unfolding closed by (simp add: deliverResponse_def)
  have again: "close closed = (closed, ([] :: ('w, 'r) wake list))"
    unfolding closed by (simp add: close_def)
  have "state closed = Closed" and "pendingRequests closed = []"
    and "blocked_callers closed = {}"
    and "length wakes = length (pendingRequests ch)"
    by (simp_all add: closed wakes blocked_callers_def drain_length)
  with entries outcomes once late again show ?thesis
    by (intro conjI)
qed

text \<open>
  Witness for C4: a channel with three pending requests; closing it wakes the callers
  41, 42 and 43 with \<open>ProviderDisconnected\<close>, request 9 exactly once, and empties the
  channel.
\<close>

theorem close_resolves_every_pending_request_witness:
  "distinct (map fst (pendingRequests \<lparr>identity = 312, outboundQueue = [[1, 7], [1, 9], [2, 12]],
        pendingRequests = [(7, 41 :: nat), (9, 42), (12, 43)], nextMessageId = 13,
        state = Open\<rparr>))
   \<and> (close \<lparr>identity = 312, outboundQueue = [[1, 7], [1, 9], [2, 12]],
        pendingRequests = [(7, 41 :: nat), (9, 42), (12, 43)], nextMessageId = 13,
        state = Open\<rparr> :: nat ProviderChannel \<times> (nat, bool) wake list)
     = (\<lparr>identity = 312, outboundQueue = [], pendingRequests = [], nextMessageId = 13,
         state = Closed\<rparr>,
        [Wake 7 41 (Failed ProviderDisconnected), Wake 9 42 (Failed ProviderDisconnected),
         Wake 12 43 (Failed ProviderDisconnected)])
   \<and> filter (\<lambda>e. wake_id e = 9)
        (snd (close \<lparr>identity = 312, outboundQueue = [[1, 7], [1, 9], [2, 12]],
          pendingRequests = [(7, 41 :: nat), (9, 42), (12, 43)], nextMessageId = 13,
          state = Open\<rparr>) :: (nat, bool) wake list)
     = [Wake 9 42 (Failed ProviderDisconnected)]
   \<and> blocked_callers \<lparr>identity = 312, outboundQueue = [], pendingRequests = [],
        nextMessageId = 13, state = Closed\<rparr> = ({} :: nat set)"
proof -
  let ?ch = "\<lparr>identity = 312, outboundQueue = [[1, 7], [1, 9], [2, 12]],
        pendingRequests = [(7, 41 :: nat), (9, 42), (12, 43)], nextMessageId = 13,
        state = Open\<rparr>"
  have ids: "distinct (map fst (pendingRequests ?ch))"
    by simp
  have result: "(close ?ch :: nat ProviderChannel \<times> (nat, bool) wake list)
     = (\<lparr>identity = 312, outboundQueue = [], pendingRequests = [], nextMessageId = 13,
         state = Closed\<rparr>,
        [Wake 7 41 (Failed ProviderDisconnected), Wake 9 42 (Failed ProviderDisconnected),
         Wake 12 43 (Failed ProviderDisconnected)])"
    by (simp add: close_def)
  note all = close_resolves_every_pending_request [of ?ch 9 True]
  from all have "distinct (map fst (pendingRequests ?ch)) \<longrightarrow>
      (\<forall>(i, w) \<in> set (pendingRequests ?ch).
          filter (\<lambda>e. wake_id e = i) (snd (close ?ch) :: (nat, bool) wake list)
            = [Wake i w (Failed ProviderDisconnected)])"
    by (elim conjE)
  with ids have "\<forall>(i, w) \<in> set (pendingRequests ?ch).
          filter (\<lambda>e. wake_id e = i) (snd (close ?ch) :: (nat, bool) wake list)
            = [Wake i w (Failed ProviderDisconnected)]"
    by (rule rev_mp)
  moreover have "(9, 42) \<in> set (pendingRequests ?ch)"
    by simp
  ultimately have once: "filter (\<lambda>e. wake_id e = 9) (snd (close ?ch) :: (nat, bool) wake list)
      = [Wake 9 42 (Failed ProviderDisconnected)]"
    by blast
  from all have "blocked_callers (fst (close ?ch :: nat ProviderChannel \<times> (nat, bool) wake list)) = {}"
    by (elim conjE)
  with result have nobody: "blocked_callers \<lparr>identity = 312, outboundQueue = [],
      pendingRequests = [], nextMessageId = 13, state = Closed\<rparr> = ({} :: nat set)"
    by simp
  from ids result once nobody show ?thesis
    by (intro conjI)
qed

section \<open>Properties of the root registry\<close>

subsection \<open>Containment of paths\<close>

text \<open>
  What \<open>path_contains\<close> computes, in terms of the strings alone: the path is the root's
  path, or the root's path followed by a separator and anything.
\<close>

lemma path_contains_iff:
  "path_contains root path = (path = root \<or> (\<exists>rest. path = root @ CHR ''/'' # rest))"
proof
  assume c: "path_contains root path"
  then have pre: "take (length root) path = root" by (simp add: path_contains_def)
  then have split: "path = root @ drop (length root) path"
    by (metis append_take_drop_id)
  show "path = root \<or> (\<exists>rest. path = root @ CHR ''/'' # rest)"
  proof (cases "length path = length root")
    case True
    with pre show ?thesis by simp
  next
    case False
    with c have sep: "path ! length root = CHR ''/''" by (simp add: path_contains_def)
    from pre False have "length root < length path"
      by (metis length_take min.cobounded1 le_neq_implies_less)
    then have "drop (length root) path = path ! length root # drop (Suc (length root)) path"
      by (simp add: Cons_nth_drop_Suc)
    with split sep have "path = root @ CHR ''/'' # drop (Suc (length root)) path"
      by simp
    then show ?thesis by blast
  qed
next
  assume "path = root \<or> (\<exists>rest. path = root @ CHR ''/'' # rest)"
  then show "path_contains root path"
    by (auto simp: path_contains_def)
qed

lemma aligned_prefixes_comparable:
  assumes a: "path_contains a p" and b: "path_contains b p" and le: "length a \<le> length b"
  shows "path_contains a b"
proof -
  from a b have ta: "take (length a) p = a" and tb: "take (length b) p = b"
    by (simp_all add: path_contains_def)
  from tb le have "take (length a) b = take (length a) p"
    by (metis min.absorb1 take_take)
  with ta have pre: "take (length a) b = a" by simp
  show ?thesis
  proof (cases "length b = length a")
    case True
    with pre show ?thesis by (simp add: path_contains_def)
  next
    case False
    with le have lt: "length a < length b" by simp
    from tb have "length b \<le> length p"
      by (metis length_take min.cobounded1)
    with lt have "length p \<noteq> length a" by simp
    with a have "p ! length a = CHR ''/''" by (simp add: path_contains_def)
    moreover from tb lt have "b ! length a = p ! length a"
      by (metis nth_take)
    ultimately show ?thesis using pre by (simp add: path_contains_def)
  qed
qed

lemma aligned_prefixes_same_length:
  "path_contains a p \<Longrightarrow> path_contains b p \<Longrightarrow> length a = length b \<Longrightarrow> a = b"
  by (metis path_contains_def)

text \<open>
  What \<open>well_formed\<close> accepts, in terms of the strings alone: the paths
  \<open>/name1/.../namek\<close> with at least one name, each name non-empty, free of separators
  and neither \<open>.\<close> nor \<open>..\<close>.
\<close>

lemma path_components_nonempty: "path_components p \<noteq> []"
  by (induction p) (auto split: list.splits)

lemma path_components_join:
  "hd (path_components p) @ concat (map ((#) CHR ''/'') (tl (path_components p))) = p"
proof (induction p)
  case Nil
  show ?case by simp
next
  case (Cons c cs)
  obtain name names where split: "path_components cs = name # names"
    using path_components_nonempty [of cs] by (cases "path_components cs") auto
  with Cons show ?case
    by (cases "c = CHR ''/''") auto
qed

lemma path_components_no_separator:
  "name \<in> set (path_components p) \<Longrightarrow> CHR ''/'' \<notin> set name"
proof (induction p arbitrary: name)
  case Nil
  then show ?case by simp
next
  case (Cons c cs)
  obtain n ns where split: "path_components cs = n # ns"
    using path_components_nonempty [of cs] by (cases "path_components cs") auto
  with Cons show ?case
    by (cases "c = CHR ''/''") auto
qed

lemma path_components_append_name:
  "CHR ''/'' \<notin> set name \<Longrightarrow>
     path_components (name @ rest)
       = (name @ hd (path_components rest)) # tl (path_components rest)"
proof (induction name)
  case Nil
  then show ?case
    using path_components_nonempty [of rest] by simp
next
  case (Cons c cs)
  then have "c \<noteq> CHR ''/''" and "CHR ''/'' \<notin> set cs"
    by auto
  with Cons.IH show ?case by simp
qed

lemma path_components_of_names:
  "\<forall>name \<in> set names. CHR ''/'' \<notin> set name \<Longrightarrow>
     path_components (concat (map ((#) CHR ''/'') names)) = [] # names"
proof (induction names)
  case Nil
  show ?case by simp
next
  case (Cons n ns)
  then show ?case
    by (simp add: path_components_append_name)
qed

lemma well_formed_iff:
  "well_formed path =
     (\<exists>names. names \<noteq> [] \<and> path = concat (map ((#) CHR ''/'') names)
        \<and> (\<forall>name \<in> set names.
              name \<noteq> [] \<and> CHR ''/'' \<notin> set name \<and> name \<noteq> ''.'' \<and> name \<noteq> ''..''))"
proof
  assume wf: "well_formed path"
  then obtain names where split: "path_components path = [] # names"
    and names: "names \<noteq> []" "\<forall>name \<in> set names. name \<noteq> [] \<and> name \<noteq> ''.'' \<and> name \<noteq> ''..''"
    by (auto simp: well_formed_def split: list.splits)
  from path_components_join [of path] split
  have "path = concat (map ((#) CHR ''/'') names)"
    by simp
  moreover from split have "\<forall>name \<in> set names. CHR ''/'' \<notin> set name"
    using path_components_no_separator [of _ path] by simp
  ultimately show "\<exists>names. names \<noteq> [] \<and> path = concat (map ((#) CHR ''/'') names)
        \<and> (\<forall>name \<in> set names.
              name \<noteq> [] \<and> CHR ''/'' \<notin> set name \<and> name \<noteq> ''.'' \<and> name \<noteq> ''..'')"
    using names by blast
next
  assume "\<exists>names. names \<noteq> [] \<and> path = concat (map ((#) CHR ''/'') names)
        \<and> (\<forall>name \<in> set names.
              name \<noteq> [] \<and> CHR ''/'' \<notin> set name \<and> name \<noteq> ''.'' \<and> name \<noteq> ''..'')"
  then obtain names where names: "names \<noteq> []"
    and path: "path = concat (map ((#) CHR ''/'') names)"
    and each: "\<forall>name \<in> set names.
        name \<noteq> [] \<and> CHR ''/'' \<notin> set name \<and> name \<noteq> ''.'' \<and> name \<noteq> ''..''"
    by blast
  from each have "path_components path = [] # names"
    unfolding path by (intro path_components_of_names) blast
  with names each show "well_formed path"
    by (simp add: well_formed_def)
qed

subsection \<open>The scan for the most specific root\<close>

lemma most_specific_sound:
  "most_specific path reg best = Some r \<Longrightarrow>
     (best = Some r \<or> r \<in> set reg)
     \<and> ((\<forall>b. best = Some b \<longrightarrow> path_contains (rootPath b) path)
          \<longrightarrow> path_contains (rootPath r) path)"
  by (induction reg arbitrary: best) (auto split: if_splits option.splits)

lemma most_specific_max:
  "most_specific path reg best = Some r \<Longrightarrow>
     (\<forall>b. best = Some b \<longrightarrow> length (rootPath b) \<le> length (rootPath r))
     \<and> (\<forall>r' \<in> set reg. path_contains (rootPath r') path
            \<longrightarrow> length (rootPath r') \<le> length (rootPath r))"
proof (induction reg arbitrary: best)
  case Nil
  then show ?case by simp
next
  case (Cons x xs)
  show ?case
  proof (cases "path_contains (rootPath x) path
      \<and> (case best of None \<Rightarrow> True | Some b \<Rightarrow> length (rootPath b) < length (rootPath x))")
    case True
    with Cons.prems have "most_specific path xs (Some x) = Some r"
      by simp
    from Cons.IH [OF this] True show ?thesis
      by (auto split: option.splits)
  next
    case False
    with Cons.prems have "most_specific path xs best = Some r"
      by auto
    from Cons.IH [OF this] False show ?thesis
      by (fastforce split: option.splits)
  qed
qed

lemma most_specific_None:
  "(most_specific path reg best = None)
     = (best = None \<and> (\<forall>r \<in> set reg. \<not> path_contains (rootPath r) path))"
  by (induction reg arbitrary: best) (auto split: if_splits option.splits)

lemma most_specific_append:
  "most_specific path (xs @ ys) best = most_specific path ys (most_specific path xs best)"
  by (induction xs arbitrary: best) auto

subsection \<open>Lookup\<close>

lemma lookup_found:
  assumes "r \<in> set reg" and "path_contains (rootPath r) path"
  shows "\<exists>r0 \<in> set reg. lookup reg path = Inr (handle r0)
           \<and> path_contains (rootPath r0) path
           \<and> (\<forall>r' \<in> set reg. path_contains (rootPath r') path
                 \<longrightarrow> length (rootPath r') \<le> length (rootPath r0))"
proof -
  from assms have "most_specific path reg None \<noteq> None"
    by (auto simp: most_specific_None)
  then obtain r0 where best: "most_specific path reg None = Some r0"
    by blast
  from most_specific_sound [OF best] have "r0 \<in> set reg" and "path_contains (rootPath r0) path"
    by auto
  moreover from most_specific_max [OF best]
  have "\<forall>r' \<in> set reg. path_contains (rootPath r') path
      \<longrightarrow> length (rootPath r') \<le> length (rootPath r0)"
    by simp
  moreover from best have "lookup reg path = Inr (handle r0)"
    by (simp add: lookup_def)
  ultimately show ?thesis
    by blast
qed

lemma lookup_NotFound:
  "(\<forall>r \<in> set reg. \<not> path_contains (rootPath r) path) \<Longrightarrow> lookup reg path = Inl NotFound"
  using most_specific_None [of path reg None]
  by (auto simp: lookup_def split: option.splits)

lemma lookup_unique:
  assumes paths: "distinct (map rootPath reg)"
    and r: "r \<in> set reg" "path_contains (rootPath r) path"
    and deepest: "\<forall>r' \<in> set reg. path_contains (rootPath r') path
        \<longrightarrow> length (rootPath r') \<le> length (rootPath r)"
  shows "lookup reg path = Inr (handle r)"
proof -
  from lookup_found [OF r] obtain r0 where r0: "r0 \<in> set reg"
    and found: "lookup reg path = Inr (handle r0)"
    and under: "path_contains (rootPath r0) path"
    and longest: "\<forall>r' \<in> set reg. path_contains (rootPath r') path
        \<longrightarrow> length (rootPath r') \<le> length (rootPath r0)"
    by blast
  from r r0 under deepest longest have "length (rootPath r0) = length (rootPath r)"
    by (simp add: le_antisym)
  with under r(2) have "rootPath r0 = rootPath r"
    by (blast intro: aligned_prefixes_same_length)
  moreover from paths have "inj_on rootPath (set reg)"
    by (simp add: distinct_map)
  ultimately have "r0 = r"
    using r0 r(1) by (simp add: inj_on_def)
  with found show ?thesis
    by simp
qed

subsection \<open>Registration\<close>

lemma unused_handle_fresh: "unused_handle reg \<notin> handle ` set reg"
proof (cases "find (\<lambda>h. h \<notin> set (map handle reg)) [0..<length reg]")
  case (Some h)
  then have "h \<notin> set (map handle reg)"
    by (auto simp: find_Some_iff)
  with Some show ?thesis
    by (simp add: unused_handle_def)
next
  case None
  then have sub: "{0..<length reg} \<subseteq> handle ` set reg"
    by (auto simp: find_None_iff)
  have "card (handle ` set reg) \<le> card (set reg)"
    by (rule card_image_le) simp
  also have "\<dots> \<le> length reg"
    by (rule card_length)
  finally have "card (handle ` set reg) \<le> card {0..<length reg}"
    by simp
  with sub have "{0..<length reg} = handle ` set reg"
    by (intro card_seteq) simp_all
  then have "handle ` set reg = {0..<length reg}"
    by simp
  with None show ?thesis
    by (simp add: unused_handle_def)
qed

text \<open>The new handle is the smallest one not in use.\<close>

lemma unused_handle_least:
  "h < unused_handle reg \<Longrightarrow> h \<in> handle ` set reg"
proof (cases "find (\<lambda>h. h \<notin> set (map handle reg)) [0..<length reg]")
  case None
  assume "h < unused_handle reg"
  with None have "h < length reg"
    by (simp add: unused_handle_def)
  with None show "h \<in> handle ` set reg"
    by (auto simp: find_None_iff)
next
  case (Some k)
  assume less: "h < unused_handle reg"
  from Some have k: "unused_handle reg = k"
    by (simp add: unused_handle_def)
  from Some obtain i where i: "i < length [0..<length reg]" "k = [0..<length reg] ! i"
    and before: "\<forall>j < i. \<not> ([0..<length reg] ! j \<notin> set (map handle reg))"
    by (auto simp: find_Some_iff)
  from i have "k = i" by simp
  with less k before i(1) have "[0..<length reg] ! h \<in> set (map handle reg)"
    by auto
  moreover from less k \<open>k = i\<close> i(1) have "[0..<length reg] ! h = h"
    by simp
  ultimately show "h \<in> handle ` set reg"
    by simp
qed

text \<open>The three outcomes of \<open>register\<close>.\<close>

lemma register_malformed:
  "\<not> well_formed root \<Longrightarrow> register reg root channel = Inl InvalidPath"
  by (simp add: register_def)

lemma register_nested:
  assumes "well_formed root" and "r \<in> set reg"
    and "path_contains (rootPath r) root \<or> path_contains root (rootPath r)"
  shows "register reg root channel = Inl AlreadyRegistered"
  using assms by (auto simp: register_def)

lemma register_apart:
  assumes "well_formed root"
    and "\<forall>r \<in> set reg. \<not> path_contains (rootPath r) root \<and> \<not> path_contains root (rootPath r)"
  shows "register reg root channel
     = Inr (unused_handle reg,
            reg @ [\<lparr>handle = unused_handle reg, rootPath = root, providerChannel = channel\<rparr>])"
  using assms by (auto simp: register_def Let_def)

lemma register_Inr:
  assumes "register reg root channel = Inr (h, reg')"
  shows "reg' = reg @ [\<lparr>handle = h, rootPath = root, providerChannel = channel\<rparr>]"
    and "h = unused_handle reg"
    and "well_formed root"
    and "\<forall>r \<in> set reg. \<not> path_contains (rootPath r) root \<and> \<not> path_contains root (rootPath r)"
  using assms by (auto simp: register_def Let_def split: if_splits)

lemma lookup_after_register_under:
  assumes reg: "register reg root channel = Inr (h, reg')"
    and under: "path_contains root path"
  shows "lookup reg' path = Inr h"
proof -
  have "\<forall>r \<in> set reg. \<not> path_contains (rootPath r) path"
  proof (intro ballI notI)
    fix r assume r: "r \<in> set reg" and c: "path_contains (rootPath r) path"
    have "path_contains (rootPath r) root \<or> path_contains root (rootPath r)"
    proof (cases "length (rootPath r) \<le> length root")
      case True
      with c under show ?thesis
        by (blast intro: aligned_prefixes_comparable)
    next
      case False
      then have "length root \<le> length (rootPath r)" by simp
      with under c show ?thesis
        by (blast intro: aligned_prefixes_comparable)
    qed
    with register_Inr(4) [OF reg] r show False
      by blast
  qed
  then have "most_specific path reg None = None"
    by (simp add: most_specific_None)
  with under show ?thesis
    by (simp add: lookup_def register_Inr(1) [OF reg] most_specific_append)
qed

lemma lookup_after_register_outside:
  assumes reg: "register reg root channel = Inr (h, reg')"
    and outside: "\<not> path_contains root path"
  shows "lookup reg' path = lookup reg path"
  using outside by (simp add: lookup_def register_Inr(1) [OF reg] most_specific_append)

lemma registered_handle_bound:
  assumes reg: "register reg root channel = Inr (h, reg')"
    and r: "r \<in> set reg'" "handle r = h"
  shows "rootPath r = root \<and> providerChannel r = channel"
proof -
  from unused_handle_fresh [of reg] register_Inr(2) [OF reg]
  have fresh: "\<forall>x \<in> set reg. handle x \<noteq> h"
    by (auto simp: image_iff)
  from r(1) register_Inr(1) [OF reg]
  have "r \<in> set reg \<or> r = \<lparr>handle = h, rootPath = root, providerChannel = channel\<rparr>"
    by auto
  then show ?thesis
  proof
    assume "r \<in> set reg"
    with fresh r(2) show ?thesis by blast
  next
    assume new: "r = \<lparr>handle = h, rootPath = root, providerChannel = channel\<rparr>"
    show ?thesis by (subst new, subst new) simp
  qed
qed

lemma register_keeps_paths_distinct:
  assumes reg: "register reg root channel = Inr (h, reg')"
    and paths: "distinct (map rootPath reg)"
  shows "distinct (map rootPath reg')"
proof -
  from register_Inr(4) [OF reg] have "\<forall>r \<in> set reg. rootPath r \<noteq> root"
    by (auto simp: path_contains_def)
  with paths show ?thesis
    by (auto simp: register_Inr(1) [OF reg])
qed

text \<open>
  C5: \<open>lookup\<close> returns the handle of the most specific registered root that contains
  the path under component alignment, where a root contains a path that is its own path
  or its own path followed by a separator and more. Whenever some registered root
  contains the path, \<open>lookup\<close> returns the handle of a registered root that contains it
  and whose path is at least as long as that of every registered root containing it;
  where no two roots have the same path, that is the handle of the one deepest root.
  When no registered root contains the path, \<open>lookup\<close> returns \<open>NotFound\<close>. After a
  successful \<open>register(root, channel)\<close> the new root neither lies in nor contains an
  earlier one, every path under \<open>root\<close> resolves to the new handle, which is bound to
  \<open>root\<close> and \<open>channel\<close>, and every other path resolves as before. After
  \<open>register("/a/b", ch)\<close> on the empty registry, \<open>lookup("/a/b/c")\<close> is the new handle
  and \<open>lookup("/a/bc")\<close> is \<open>NotFound\<close>.
\<close>

theorem lookup_most_specific_root:
  fixes reg :: registry
  defines "aligned_under \<equiv> \<lambda>dir p. p = dir \<or> (\<exists>rest. p = dir @ CHR ''/'' # rest)"
  shows
    "(\<forall>r \<in> set reg. aligned_under (rootPath r) path \<longrightarrow>
        (\<exists>r0 \<in> set reg. lookup reg path = Inr (handle r0) \<and> aligned_under (rootPath r0) path
           \<and> (\<forall>r' \<in> set reg. aligned_under (rootPath r') path
                 \<longrightarrow> length (rootPath r') \<le> length (rootPath r0))))
     \<and> ((\<forall>r \<in> set reg. \<not> aligned_under (rootPath r) path) \<longrightarrow> lookup reg path = Inl NotFound)
     \<and> (\<forall>r \<in> set reg.
          distinct (map rootPath reg) \<and> aligned_under (rootPath r) path
          \<and> (\<forall>r' \<in> set reg. aligned_under (rootPath r') path
                \<longrightarrow> length (rootPath r') \<le> length (rootPath r))
          \<longrightarrow> lookup reg path = Inr (handle r))
     \<and> (register reg root channel = Inr (h, reg') \<longrightarrow>
          (\<forall>r \<in> set reg. \<not> aligned_under (rootPath r) root \<and> \<not> aligned_under root (rootPath r))
          \<and> (aligned_under root path \<longrightarrow> lookup reg' path = Inr h)
          \<and> (\<not> aligned_under root path \<longrightarrow> lookup reg' path = lookup reg path)
          \<and> (\<forall>r \<in> set reg'. handle r = h
                \<longrightarrow> rootPath r = root \<and> providerChannel r = channel)
          \<and> (distinct (map rootPath reg) \<longrightarrow> distinct (map rootPath reg')))
     \<and> register [] ''/a/b'' channel
          = Inr (0, [\<lparr>handle = 0, rootPath = ''/a/b'', providerChannel = channel\<rparr>])
     \<and> lookup [\<lparr>handle = 0, rootPath = ''/a/b'', providerChannel = channel\<rparr>] ''/a/b/c''
          = Inr 0
     \<and> lookup [\<lparr>handle = 0, rootPath = ''/a/b'', providerChannel = channel\<rparr>] ''/a/bc''
          = Inl NotFound"
proof -
  have aligned: "aligned_under dir p = path_contains dir p" for dir p
    unfolding aligned_under_def path_contains_iff by (rule refl)
  have found: "\<forall>r \<in> set reg. path_contains (rootPath r) path \<longrightarrow>
        (\<exists>r0 \<in> set reg. lookup reg path = Inr (handle r0) \<and> path_contains (rootPath r0) path
           \<and> (\<forall>r' \<in> set reg. path_contains (rootPath r') path
                 \<longrightarrow> length (rootPath r') \<le> length (rootPath r0)))"
    by (blast dest: lookup_found)
  have none: "(\<forall>r \<in> set reg. \<not> path_contains (rootPath r) path)
      \<longrightarrow> lookup reg path = Inl NotFound"
    by (blast intro: lookup_NotFound)
  have unique: "\<forall>r \<in> set reg.
          distinct (map rootPath reg) \<and> path_contains (rootPath r) path
          \<and> (\<forall>r' \<in> set reg. path_contains (rootPath r') path
                \<longrightarrow> length (rootPath r') \<le> length (rootPath r))
          \<longrightarrow> lookup reg path = Inr (handle r)"
    by (blast intro: lookup_unique)
  have registered: "register reg root channel = Inr (h, reg') \<longrightarrow>
          (\<forall>r \<in> set reg. \<not> path_contains (rootPath r) root \<and> \<not> path_contains root (rootPath r))
          \<and> (path_contains root path \<longrightarrow> lookup reg' path = Inr h)
          \<and> (\<not> path_contains root path \<longrightarrow> lookup reg' path = lookup reg path)
          \<and> (\<forall>r \<in> set reg'. handle r = h
                \<longrightarrow> rootPath r = root \<and> providerChannel r = channel)
          \<and> (distinct (map rootPath reg) \<longrightarrow> distinct (map rootPath reg'))"
  proof (intro impI conjI)
    assume ok: "register reg root channel = Inr (h, reg')"
    show "\<forall>r \<in> set reg. \<not> path_contains (rootPath r) root \<and> \<not> path_contains root (rootPath r)"
      by (rule register_Inr(4) [OF ok])
    show "lookup reg' path = Inr h" if "path_contains root path"
      using ok that by (rule lookup_after_register_under)
    show "lookup reg' path = lookup reg path" if "\<not> path_contains root path"
      using ok that by (rule lookup_after_register_outside)
    show "\<forall>r \<in> set reg'. handle r = h \<longrightarrow> rootPath r = root \<and> providerChannel r = channel"
      using ok by (blast dest: registered_handle_bound)
    show "distinct (map rootPath reg')" if "distinct (map rootPath reg)"
      using ok that by (rule register_keeps_paths_distinct)
  qed
  have first: "register [] ''/a/b'' channel
          = Inr (0, [\<lparr>handle = 0, rootPath = ''/a/b'', providerChannel = channel\<rparr>])"
    by (simp add: register_def well_formed_def unused_handle_def)
  have inside: "lookup [\<lparr>handle = 0, rootPath = ''/a/b'', providerChannel = channel\<rparr>] ''/a/b/c''
          = Inr 0"
    by (simp add: lookup_def path_contains_def)
  have beside: "lookup [\<lparr>handle = 0, rootPath = ''/a/b'', providerChannel = channel\<rparr>] ''/a/bc''
          = Inl NotFound"
    by (simp add: lookup_def path_contains_def)
  from found none unique registered first inside beside show ?thesis
    unfolding aligned by (intro conjI)
qed


text \<open>
  Witness for C5: \<open>/repo\<close> and \<open>/other/root\<close> are registered in turn and get the
  handles 0 and 1. A file under each resolves to its root, \<open>/repository\<close>, which
  \<open>/repo\<close> prefixes only as a string, to \<open>NotFound\<close>. A root inside \<open>/repo\<close>, a root
  around \<open>/other/root\<close> and the second spelling \<open>/repo/\<close> are refused. In a table with
  three nested roots, which \<open>register\<close> does not build but for which the rule of
  \<open>lookup\<close> is defined all the same, \<open>/a/b/x\<close> resolves to \<open>/a/b\<close>, the deepest of
  the two roots that contain it.
\<close>

theorem lookup_most_specific_root_witness:
  "register [] ''/repo'' 7
     = Inr (0, [\<lparr>handle = 0, rootPath = ''/repo'', providerChannel = 7\<rparr>])
   \<and> register [\<lparr>handle = 0, rootPath = ''/repo'', providerChannel = 7\<rparr>] ''/other/root'' 8
     = Inr (1, [\<lparr>handle = 0, rootPath = ''/repo'', providerChannel = 7\<rparr>,
                \<lparr>handle = 1, rootPath = ''/other/root'', providerChannel = 8\<rparr>])
   \<and> lookup [\<lparr>handle = 0, rootPath = ''/repo'', providerChannel = 7\<rparr>,
              \<lparr>handle = 1, rootPath = ''/other/root'', providerChannel = 8\<rparr>]
         ''/other/root/file.txt'' = Inr 1
   \<and> lookup [\<lparr>handle = 0, rootPath = ''/repo'', providerChannel = 7\<rparr>,
              \<lparr>handle = 1, rootPath = ''/other/root'', providerChannel = 8\<rparr>]
         ''/repo/file.txt'' = Inr 0
   \<and> lookup [\<lparr>handle = 0, rootPath = ''/repo'', providerChannel = 7\<rparr>,
              \<lparr>handle = 1, rootPath = ''/other/root'', providerChannel = 8\<rparr>]
         ''/repository'' = Inl NotFound
   \<and> register [\<lparr>handle = 0, rootPath = ''/repo'', providerChannel = 7\<rparr>,
                \<lparr>handle = 1, rootPath = ''/other/root'', providerChannel = 8\<rparr>]
         ''/repo/sub'' 9 = Inl AlreadyRegistered
   \<and> register [\<lparr>handle = 0, rootPath = ''/repo'', providerChannel = 7\<rparr>,
                \<lparr>handle = 1, rootPath = ''/other/root'', providerChannel = 8\<rparr>]
         ''/other'' 9 = Inl AlreadyRegistered
   \<and> register [\<lparr>handle = 0, rootPath = ''/repo'', providerChannel = 7\<rparr>,
                \<lparr>handle = 1, rootPath = ''/other/root'', providerChannel = 8\<rparr>]
         ''/repo/'' 9 = Inl InvalidPath
   \<and> lookup [\<lparr>handle = 0, rootPath = ''/a'', providerChannel = 7\<rparr>,
              \<lparr>handle = 1, rootPath = ''/a/b'', providerChannel = 8\<rparr>,
              \<lparr>handle = 2, rootPath = ''/a/b/c'', providerChannel = 9\<rparr>]
         ''/a/b/x'' = Inr 1"
proof -
  let ?repo = "\<lparr>handle = 0, rootPath = ''/repo'', providerChannel = 7\<rparr>"
  let ?other = "\<lparr>handle = 1, rootPath = ''/other/root'', providerChannel = 8\<rparr>"
  let ?a = "\<lparr>handle = 0, rootPath = ''/a'', providerChannel = 7\<rparr>"
  let ?ab = "\<lparr>handle = 1, rootPath = ''/a/b'', providerChannel = 8\<rparr>"
  let ?abc = "\<lparr>handle = 2, rootPath = ''/a/b/c'', providerChannel = 9\<rparr>"
  note rule = lookup_most_specific_root [unfolded path_contains_iff [symmetric]]
  have first: "register [] ''/repo'' 7 = Inr (0, [?repo])"
    by (simp add: register_def well_formed_def unused_handle_def)
  have second: "register [?repo] ''/other/root'' 8 = Inr (1, [?repo, ?other])"
    by (simp add: register_def well_formed_def unused_handle_def path_contains_def)
  have "path_contains ''/other/root'' ''/other/root/file.txt''"
    by (simp add: path_contains_def)
  with second have in_other: "lookup [?repo, ?other] ''/other/root/file.txt'' = Inr 1"
    by (rule rule [THEN conjunct2, THEN conjunct2, THEN conjunct2, THEN conjunct1, THEN mp,
          THEN conjunct2, THEN conjunct1, THEN mp])
  have "?repo \<in> set [?repo, ?other]"
    by simp
  moreover have "distinct (map rootPath [?repo, ?other])
      \<and> path_contains (rootPath ?repo) ''/repo/file.txt''
      \<and> (\<forall>r' \<in> set [?repo, ?other]. path_contains (rootPath r') ''/repo/file.txt''
            \<longrightarrow> length (rootPath r') \<le> length (rootPath ?repo))"
    by (simp add: path_contains_def)
  ultimately have "lookup [?repo, ?other] ''/repo/file.txt'' = Inr (handle ?repo)"
    by (rule rule [THEN conjunct2, THEN conjunct2, THEN conjunct1, THEN bspec, THEN mp])
  then have in_repo: "lookup [?repo, ?other] ''/repo/file.txt'' = Inr 0"
    by simp
  have "\<forall>r \<in> set [?repo, ?other]. \<not> path_contains (rootPath r) ''/repository''"
    by (simp add: path_contains_def)
  then have nowhere: "lookup [?repo, ?other] ''/repository'' = Inl NotFound"
    by (rule rule [THEN conjunct2, THEN conjunct1, THEN mp])
  have inner: "register [?repo, ?other] ''/repo/sub'' 9 = Inl AlreadyRegistered"
    by (simp add: register_def well_formed_def path_contains_def)
  have outer: "register [?repo, ?other] ''/other'' 9 = Inl AlreadyRegistered"
    by (simp add: register_def well_formed_def path_contains_def)
  have malformed: "register [?repo, ?other] ''/repo/'' 9 = Inl InvalidPath"
    by (simp add: register_def well_formed_def)
  have "?ab \<in> set [?a, ?ab, ?abc]"
    by simp
  moreover have "distinct (map rootPath [?a, ?ab, ?abc])
      \<and> path_contains (rootPath ?ab) ''/a/b/x''
      \<and> (\<forall>r' \<in> set [?a, ?ab, ?abc]. path_contains (rootPath r') ''/a/b/x''
            \<longrightarrow> length (rootPath r') \<le> length (rootPath ?ab))"
    by (simp add: path_contains_def)
  ultimately have "lookup [?a, ?ab, ?abc] ''/a/b/x'' = Inr (handle ?ab)"
    by (rule rule [THEN conjunct2, THEN conjunct2, THEN conjunct1, THEN bspec, THEN mp])
  then have nested: "lookup [?a, ?ab, ?abc] ''/a/b/x'' = Inr 1"
    by simp
  from first second in_other in_repo nowhere inner outer malformed nested show ?thesis
    by (intro conjI)
qed

end
